theory Spec2Isabelle
  imports
    Complex_Main
    "HOL-Library.Word"
    "HOL-Library.Multiset"
    "HOL-Library.Char_ord"
    "HOL-Library.List_Lexorder"
    "HOL-Library.Product_Lexorder"
begin

section \<open>TLS ClientHello parser (scripts/ja4\_improved.py)\<close>

text \<open>
  A payload is a Python \<open>bytes\<close> object: a list of values in 0..255. Indexing past the
  end raises \<open>IndexError\<close>; \<open>struct.unpack('>H', b)\<close> raises \<open>struct.error\<close> unless
  \<open>b\<close> holds exactly two bytes. Both are values of the model, so that a raise is a
  result one can state theorems about.
\<close>

type_synonym byte = "8 word"

datatype exn = IndexError | StructError

definition seq :: "exn + 'a \<Rightarrow> ('a \<Rightarrow> exn + 'b) \<Rightarrow> exn + 'b" where
  "seq m f = (case m of Inl e \<Rightarrow> Inl e | Inr v \<Rightarrow> f v)"

definition getitem :: "byte list \<Rightarrow> nat \<Rightarrow> exn + byte" where
  "getitem raw_data i = (if i < length raw_data then Inr (raw_data ! i) else Inl IndexError)"

text \<open>\<open>raw_data[a:b]\<close> for \<open>0 \<le> a\<close>: slicing never raises, it returns what is there.\<close>

definition slice :: "byte list \<Rightarrow> nat \<Rightarrow> nat \<Rightarrow> byte list" where
  "slice raw_data a b = take (b - a) (drop a raw_data)"

fun unpack_H :: "byte list \<Rightarrow> exn + nat" where
  "unpack_H [hi, lo] = Inr (unat hi * 256 + unat lo)"
| "unpack_H _ = Inl StructError"

text \<open>\<open>range(0, n, 2)\<close>: the values 0, 2, 4, ... below \<open>n\<close>.\<close>

definition range_step2 :: "nat \<Rightarrow> nat list" where
  "range_step2 n = map (\<lambda>k. 2 * k) [0 ..< (n + 1) div 2]"

record tls_data =
  version :: nat
  cipher_suites :: "nat list"
  extensions :: "nat list"
  alpn :: bool
  sni :: bool
  valid :: bool

text \<open>
  The cipher-suite loop (lines 75-80): one iteration per element of
  \<open>range(0, cipher_suites_len, 2)\<close>; \<open>break\<close> leaves the loop with what was read.
  The local lists \<open>cipher_suites\<close> and \<open>extensions\<close> and the local \<open>version\<close> are
  written \<open>suites\<close>, \<open>exts\<close> and \<open>record_version\<close>, the names of the dictionary
  keys being taken by the record.
\<close>

fun cipher_loop :: "byte list \<Rightarrow> nat list \<Rightarrow> nat \<Rightarrow> nat list \<Rightarrow> exn + (nat list \<times> nat)" where
  "cipher_loop raw_data [] offset suites = Inr (suites, offset)"
| "cipher_loop raw_data (i # rest) offset suites =
     (if length raw_data \<le> offset + 1 then Inr (suites, offset)
      else case unpack_H (slice raw_data offset (offset + 2)) of
             Inl e \<Rightarrow> Inl e
           | Inr cipher \<Rightarrow> cipher_loop raw_data rest (offset + 2) (suites @ [cipher]))"

text \<open>
  The extensions loop (lines 95-99). \<open>len(raw_data) - 3\<close> is a Python integer and may be
  negative, so the comparison is over \<open>int\<close>.
\<close>

function ext_loop :: "byte list \<Rightarrow> nat \<Rightarrow> nat \<Rightarrow> nat \<Rightarrow> nat list \<Rightarrow> exn + nat list" where
  "ext_loop raw_data offset extensions_len ext_offset exts =
     (if ext_offset < offset + extensions_len \<and> int ext_offset < int (length raw_data) - 3 then
        case unpack_H (slice raw_data ext_offset (ext_offset + 2)) of
          Inl e \<Rightarrow> Inl e
        | Inr ext_type \<Rightarrow>
           (case unpack_H (slice raw_data (ext_offset + 2) (ext_offset + 4)) of
              Inl e \<Rightarrow> Inl e
            | Inr ext_len \<Rightarrow>
                ext_loop raw_data offset extensions_len (ext_offset + 4 + ext_len)
                  (exts @ [ext_type]))
      else Inr exts)"
  by pat_completeness auto
termination
  by (relation "measure (\<lambda>(raw_data, offset, extensions_len, ext_offset, exts).
        length raw_data - ext_offset)") auto

declare ext_loop.simps [simp del]

text \<open>
  The body of the \<open>try\<close> block (lines 60-114), entered with \<open>offset = 9\<close>. It returns
  \<open>None\<close> or the result dictionary, or raises.
\<close>

definition client_hello_body :: "byte list \<Rightarrow> nat \<Rightarrow> nat \<Rightarrow> exn + tls_data option" where
  "client_hello_body raw_data record_version offset0 =
     (let offset = offset0 + 32 in
      if length raw_data \<le> offset then Inr None else
      seq (getitem raw_data offset) (\<lambda>session_id_len.
      let offset = offset + 1 + unat session_id_len in
      if length raw_data \<le> offset + 1 then Inr None else
      seq (unpack_H (slice raw_data offset (offset + 2))) (\<lambda>cipher_suites_len.
      let offset = offset + 2 in
      seq (cipher_loop raw_data (range_step2 cipher_suites_len) offset []) (\<lambda>(suites, offset).
      if length raw_data \<le> offset then Inr None else
      seq (getitem raw_data offset) (\<lambda>compression_len.
      let offset = offset + 1 + unat compression_len in
      if length raw_data \<le> offset + 1 then Inr None else
      seq (unpack_H (slice raw_data offset (offset + 2))) (\<lambda>extensions_len.
      let offset = offset + 2 in
      seq (ext_loop raw_data offset extensions_len offset []) (\<lambda>exts.
      let alpn_present = (16 \<in> set exts);
          sni_present = (0 \<in> set exts)
      in Inr (Some \<lparr>version = record_version, cipher_suites = suites,
                     extensions = exts, alpn = alpn_present, sni = sni_present,
                     valid = True\<rparr>))))))))"

text \<open>
  \<open>parse_tls_client_hello\<close> (lines 20-116). The reads before the \<open>try\<close> propagate a
  raise; inside it \<open>except (IndexError, struct.error)\<close> turns a raise into \<open>None\<close>.
\<close>

definition parse_tls_client_hello :: "byte list \<Rightarrow> exn + tls_data option" where
  "parse_tls_client_hello raw_data =
     (if length raw_data < 5 then Inr None else
      seq (getitem raw_data 0) (\<lambda>content_type.
      if content_type \<noteq> 0x16 then Inr None else
      seq (unpack_H (slice raw_data 1 3)) (\<lambda>record_version.
      if length raw_data < 6 then Inr None else
      seq (getitem raw_data 5) (\<lambda>handshake_type.
      if handshake_type \<noteq> 0x01 then Inr None else
      let offset = 9 in
      if length raw_data \<le> offset then Inr None else
      (case client_hello_body raw_data record_version offset of
         Inl e \<Rightarrow> Inr None
       | Inr r \<Rightarrow> Inr r)))))"

subsection \<open>Notions used to state the parser's properties\<close>

text \<open>The big-endian 16-bit value held at offsets \<open>i\<close> and \<open>i + 1\<close>.\<close>

definition u16_at :: "byte list \<Rightarrow> nat \<Rightarrow> nat" where
  "u16_at raw_data i = unat (raw_data ! i) * 256 + unat (raw_data ! (i + 1))"

text \<open>
  Where the declared lengths place the first extension header: the session-ID length is
  read at offset 41, the cipher-suite block length \<open>L\<close> right after the session ID, the
  cipher loop advances by two bytes for each element of \<open>range(0, L, 2)\<close>, then come the
  compression methods and the two bytes of the extensions length.
\<close>

definition extensions_offset :: "byte list \<Rightarrow> nat" where
  "extensions_offset raw_data =
     (let session_id_len = unat (raw_data ! 41);
          cipher_suites_len = u16_at raw_data (42 + session_id_len);
          compression_at = 44 + session_id_len + 2 * ((cipher_suites_len + 1) div 2);
          compression_len = unat (raw_data ! compression_at)
      in compression_at + 1 + compression_len + 2)"

subsection \<open>Sample records\<close>

text \<open>
  A well-formed TLS 1.2 ClientHello record: record header, handshake header, client
  version 0x0303 at offsets 9-10, 32 random bytes at 11-42, an empty session ID
  (length byte at offset 43), one cipher suite 0x1301, one compression method, and an
  empty extensions block.
\<close>

definition wellformed_hello :: "byte list" where
  "wellformed_hello =
     [0x16, 0x03, 0x01, 0x00, 0x2f] @ [0x01, 0x00, 0x00, 0x2b] @ [0x03, 0x03]
     @ replicate 32 0x00 @ [0x00] @ [0x00, 0x02, 0x13, 0x01] @ [0x01, 0x00] @ [0x00, 0x00]"

text \<open>
  The next three records are laid out the way the code walks a payload: record header
  and handshake header (offsets 0-8), 32 bytes that the code skips (offsets 9-40), and
  the session-ID length at offset 41, here 0, so that the cipher-suite block length is
  at offsets 42-43.
\<close>

definition prefix41 :: "byte list" where
  "prefix41 = [0x16, 0x03, 0x01, 0x00, 0x2e] @ [0x01, 0x00, 0x00, 0x2a] @ replicate 32 0x00"

text \<open>
  Cipher-suite block length 3 (offsets 42-43), the block 13 01 13 (offsets 44-46), then
  01 00 (a compression-methods field with one method) and 00 00 (no extensions).
\<close>

definition odd_block_hello :: "byte list" where
  "odd_block_hello =
     prefix41 @ [0x00] @ [0x00, 0x03] @ [0x13, 0x01, 0x13] @ [0x01, 0x00] @ [0x00, 0x00]"

text \<open>
  No cipher suite, no compression method, extensions length 1 (offsets 45-46), followed
  by the four bytes 00 10 00 00 (offsets 47-50): an ALPN extension header of which only
  the first byte lies inside the declared block.
\<close>

definition short_block_hello :: "byte list" where
  "short_block_hello =
     prefix41 @ [0x00] @ [0x00, 0x00] @ [0x00] @ [0x00, 0x01] @ [0x00, 0x10, 0x00, 0x00]"

text \<open>
  No cipher suite, no compression method, extensions length 8 (offsets 45-46), but
  only four bytes follow (offsets 47-50): a server-name extension header. The record has
  51 bytes where its declared lengths need 55.
\<close>

definition overrun_hello :: "byte list" where
  "overrun_hello =
     prefix41 @ [0x00] @ [0x00, 0x00] @ [0x00] @ [0x00, 0x08] @ [0x00, 0x00, 0x00, 0x00]"

section \<open>Fingerprint encoder (scripts/ja4\_improved.py)\<close>

definition version_map :: "(nat \<times> string) list" where
  "version_map = [(0x0301, ''t10''), (0x0302, ''t11''), (0x0303, ''t12''), (0x0304, ''t13'')]"

text \<open>\<open>d.get(k, default)\<close>.\<close>

definition dict_get :: "('k \<times> 'v) list \<Rightarrow> 'k \<Rightarrow> 'v \<Rightarrow> 'v" where
  "dict_get d k dflt = (case map_of d k of Some v \<Rightarrow> v | None \<Rightarrow> dflt)"

text \<open>
  The format specifications \<open>02d\<close> and \<open>04x\<close> of a non-negative integer: its digits in
  base 10 (lowercase base 16), padded with zeros on the left up to the width and never
  cut.
\<close>

definition digit_char :: "nat \<Rightarrow> char" where
  "digit_char d = ''0123456789abcdef'' ! d"

function dec_digits :: "nat \<Rightarrow> string" where
  "dec_digits n = (if n < 10 then [digit_char n]
                   else dec_digits (n div 10) @ [digit_char (n mod 10)])"
  by pat_completeness auto
termination
  by (relation "measure id") auto

function hex_digits :: "nat \<Rightarrow> string" where
  "hex_digits n = (if n < 16 then [digit_char n]
                   else hex_digits (n div 16) @ [digit_char (n mod 16)])"
  by pat_completeness auto
termination
  by (relation "measure id") auto

definition zero_pad :: "nat \<Rightarrow> string \<Rightarrow> string" where
  "zero_pad width s = replicate (width - length s) (CHR ''0'') @ s"

definition fmt_02d :: "nat \<Rightarrow> string" where
  "fmt_02d n = zero_pad 2 (dec_digits n)"

definition fmt_04x :: "nat \<Rightarrow> string" where
  "fmt_04x n = zero_pad 4 (hex_digits n)"

text \<open>\<open>sep.join(parts)\<close>.\<close>

fun join :: "string \<Rightarrow> string list \<Rightarrow> string" where
  "join sep [] = []"
| "join sep [s] = s"
| "join sep (s # t # rest) = s @ sep @ join sep (t # rest)"

text \<open>
  \<open>calculate_ja4_improved\<close> (lines 118-158). \<open>hashlib.sha256(s.encode()).hexdigest()\<close>
  belongs to the Python library, not to the repository: it is the parameter
  \<open>sha256_hexdigest\<close>. The locals \<open>sni\<close> and \<open>alpn\<close> are written \<open>sni_flag\<close> and
  \<open>alpn_flag\<close>.
\<close>

definition calculate_ja4_improved :: "(string \<Rightarrow> string) \<Rightarrow> tls_data \<Rightarrow> string" where
  "calculate_ja4_improved sha256_hexdigest tls =
     (let protocol = dict_get version_map (version tls) ''t13'';
          sni_flag = (if sni tls then ''d'' else ''i'');
          cipher_count = min (length (cipher_suites tls)) 99;
          cipher_count_str = fmt_02d cipher_count;
          ext_count = min (length (extensions tls)) 99;
          ext_count_str = fmt_02d ext_count;
          alpn_flag = (if alpn tls then ''h2'' else ''00'');
          part1 = protocol @ sni_flag @ cipher_count_str @ ext_count_str @ alpn_flag;
          cipher_hex = map fmt_04x (sort (cipher_suites tls));
          cipher_string = join '','' cipher_hex;
          cipher_hash = take 12 (sha256_hexdigest cipher_string);
          ext_string = join '','' (map fmt_04x (sort (extensions tls)));
          ext_hash = take 12 (sha256_hexdigest ext_string)
      in part1 @ ''_'' @ cipher_hash @ ''_'' @ ext_hash)"

section \<open>Connection deduplication (scripts/ja4\_improved.py)\<close>

text \<open>
  A captured packet as the loop of \<open>extract_ja4_from_pcap\<close> sees it: whether it has an
  IP and a TCP layer, the endpoints, and the bytes of its Raw layer when it has one.
\<close>

record packet =
  has_ip :: bool
  has_tcp :: bool
  src :: string
  dst :: string
  sport :: nat
  dport :: nat
  raw :: "byte list option"

text \<open>
  An entry of \<open>signatures\<close> (lines 200-209). Its keys \<open>src\<close>, \<open>dst\<close>, \<open>sport\<close>,
  \<open>dport\<close>, \<open>version\<close> and \<open>extensions\<close> carry the prefix \<open>sig_\<close>, the plain names
  being fields of the records above.
\<close>

record signature_info =
  signature :: string
  sig_src :: string
  sig_dst :: string
  sig_sport :: nat
  sig_dport :: nat
  sig_version :: nat
  ciphers :: nat
  sig_extensions :: nat

type_synonym endpoint = "string \<times> nat"

record scan_state =
  signatures :: "signature_info list"
  seen_connections :: "endpoint list set"

text \<open>
  \<open>tuple(sorted([(ip.src, tcp.sport), (ip.dst, tcp.dport)]))\<close>: Python orders the pairs
  lexicographically, strings by code point, which is the order of \<open>string \<times> nat\<close> here.
\<close>

definition conn_id :: "packet \<Rightarrow> endpoint list" where
  "conn_id pkt = sort [(src pkt, sport pkt), (dst pkt, dport pkt)]"

text \<open>The dictionary appended to \<open>signatures\<close> (lines 200-209).\<close>

definition signature_of :: "(string \<Rightarrow> string) \<Rightarrow> packet \<Rightarrow> tls_data \<Rightarrow> signature_info" where
  "signature_of sha256_hexdigest pkt tls =
     \<lparr>signature = calculate_ja4_improved sha256_hexdigest tls,
      sig_src = src pkt, sig_dst = dst pkt, sig_sport = sport pkt, sig_dport = dport pkt,
      sig_version = version tls, ciphers = length (cipher_suites tls),
      sig_extensions = length (extensions tls)\<rparr>"

text \<open>One iteration of \<open>for pkt in packets\<close> (lines 171-209).\<close>

definition process_packet :: "(string \<Rightarrow> string) \<Rightarrow> scan_state \<Rightarrow> packet \<Rightarrow> exn + scan_state" where
  "process_packet sha256_hexdigest st pkt =
     (if \<not> has_ip pkt \<or> \<not> has_tcp pkt then Inr st
      else if dport pkt \<noteq> 443 \<and> sport pkt \<noteq> 443 then Inr st
      else if conn_id pkt \<in> seen_connections st then Inr st
      else case raw pkt of
             None \<Rightarrow> Inr st
           | Some raw_data \<Rightarrow>
               seq (parse_tls_client_hello raw_data) (\<lambda>parsed.
                 case parsed of
                   None \<Rightarrow> Inr st
                 | Some tls \<Rightarrow>
                     if valid tls then
                       Inr \<lparr>signatures = signatures st @ [signature_of sha256_hexdigest pkt tls],
                            seen_connections = insert (conn_id pkt) (seen_connections st)\<rparr>
                     else Inr st))"

fun packets_loop :: "(string \<Rightarrow> string) \<Rightarrow> scan_state \<Rightarrow> packet list \<Rightarrow> exn + scan_state" where
  "packets_loop sha256_hexdigest st [] = Inr st"
| "packets_loop sha256_hexdigest st (pkt # rest) =
     (case process_packet sha256_hexdigest st pkt of
        Inl e \<Rightarrow> Inl e
      | Inr st' \<Rightarrow> packets_loop sha256_hexdigest st' rest)"

text \<open>
  \<open>extract_ja4_from_pcap\<close> on the packets that \<open>rdpcap\<close> read from the capture file.
\<close>

definition extract_ja4_from_pcap :: "(string \<Rightarrow> string) \<Rightarrow> packet list \<Rightarrow> exn + signature_info list" where
  "extract_ja4_from_pcap sha256_hexdigest packets =
     seq (packets_loop sha256_hexdigest \<lparr>signatures = [], seen_connections = {}\<rparr> packets)
         (\<lambda>st. Inr (signatures st))"

subsection \<open>Notions used to state the deduplicator's properties\<close>

text \<open>The flow of an entry of \<open>signatures\<close>, computed as \<open>conn_id\<close> computes it.\<close>

definition sig_conn_id :: "signature_info \<Rightarrow> endpoint list" where
  "sig_conn_id s = sort [(sig_src s, sig_sport s), (sig_dst s, sig_dport s)]"

text \<open>The same packet travelling the other way.\<close>

definition reversed :: "packet \<Rightarrow> packet" where
  "reversed pkt = pkt\<lparr>src := dst pkt, dst := src pkt, sport := dport pkt, dport := sport pkt\<rparr>"

text \<open>
  What a packet contributes when its flow has not been seen: the entry built from its
  payload when it is a TCP/IP packet to or from port 443 whose Raw layer parses, and
  nothing otherwise.
\<close>

definition observation_of :: "(string \<Rightarrow> string) \<Rightarrow> packet \<Rightarrow> signature_info option" where
  "observation_of sha256_hexdigest pkt =
     (if has_ip pkt \<and> has_tcp pkt \<and> (dport pkt = 443 \<or> sport pkt = 443) then
        case raw pkt of
          None \<Rightarrow> None
        | Some raw_data \<Rightarrow>
            (case parse_tls_client_hello raw_data of
               Inr (Some tls) \<Rightarrow> Some (signature_of sha256_hexdigest pkt tls)
             | _ \<Rightarrow> None)
      else None)"

text \<open>
  The loop invariant: every entry's flow is in \<open>seen_connections\<close>, and no two entries
  share a flow.
\<close>

definition flows_tracked :: "scan_state \<Rightarrow> bool" where
  "flows_tracked st \<longleftrightarrow>
     sig_conn_id ` set (signatures st) \<subseteq> seen_connections st \<and>
     distinct (map sig_conn_id (signatures st))"

text \<open>
  Sample packets: application data and a ClientHello on the same flow to port 443, and
  the same ClientHello between ports 50000 and 8443.
\<close>

definition data_packet :: packet where
  "data_packet = \<lparr>has_ip = True, has_tcp = True, src = ''10.0.0.1'', dst = ''10.0.0.2'',
                   sport = 50000, dport = 443,
                   raw = Some [0x17, 0x03, 0x03, 0x00, 0x01, 0x00]\<rparr>"

definition hello_packet :: packet where
  "hello_packet = \<lparr>has_ip = True, has_tcp = True, src = ''10.0.0.1'', dst = ''10.0.0.2'',
                    sport = 50000, dport = 443, raw = Some overrun_hello\<rparr>"

definition other_port_packet :: packet where
  "other_port_packet = \<lparr>has_ip = True, has_tcp = True, src = ''10.0.0.1'', dst = ''10.0.0.2'',
                         sport = 50000, dport = 8443, raw = Some overrun_hello\<rparr>"

definition overrun_tls :: tls_data where
  "overrun_tls = \<lparr>version = 0x0301, cipher_suites = [], extensions = [0],
                   alpn = False, sni = True, valid = True\<rparr>"

section \<open>Signature analysis (calculate\_all\_improved\_ja4.py)\<close>

text \<open>
  \<open>sig_counts\<close> is a \<open>defaultdict(int)\<close>. A Python dictionary iterates in insertion
  order, and \<open>max\<close> depends on that order, so the dictionary is an association list:
  \<open>sig_counts[k] += 1\<close> updates the entry of \<open>k\<close> in place, or appends \<open>(k, 1)\<close>.
\<close>

fun increment :: "(string \<times> nat) list \<Rightarrow> string \<Rightarrow> (string \<times> nat) list" where
  "increment [] k = [(k, 1)]"
| "increment ((k', c) # rest) k =
     (if k' = k then (k', c + 1) # rest else (k', c) # increment rest k)"

definition count_signatures :: "signature_info list \<Rightarrow> (string \<times> nat) list" where
  "count_signatures sigs = foldl (\<lambda>sig_counts sig_info. increment sig_counts (signature sig_info)) [] sigs"

text \<open>
  \<open>max(items, key=lambda x: x[1])\<close> on a non-empty sequence: the running maximum is
  replaced only by an item whose key is strictly greater.
\<close>

definition max_by_count :: "(string \<times> nat) \<Rightarrow> (string \<times> nat) list \<Rightarrow> (string \<times> nat)" where
  "max_by_count first rest = foldl (\<lambda>best item. if snd best < snd item then item else best) first rest"

text \<open>
  The three branches at lines 78-83 (and 131-136): "Fully consistent", "Mostly
  consistent", "Low consistency"; the specification calls them Full, Majority and
  Mixed.
\<close>

datatype consistency = FullyConsistent | MostlyConsistent | LowConsistency

text \<open>
  The entry of \<open>results\<close> for one framework (lines 64-71), with the branch taken at
  lines 78-83. The keys \<open>signature\<close>, \<open>count\<close>, \<open>total\<close> and \<open>unique\<close> carry the prefix
  \<open>res_\<close>.
\<close>

record analysis =
  res_signature :: string
  res_count :: nat
  res_total :: nat
  res_consistency :: string
  res_unique :: nat
  all_signatures :: "string list"
  consistency_class :: consistency

text \<open>
  \<open>consistent / total >= 0.67\<close> divides two Python integers into a double and compares
  it with the double nearest to 67/100. The model compares the exact quotient with
  67/100 (\<open>total_n\<close> is the local \<open>total\<close>). The two agree whenever \<open>total < 2 ^ 45\<close>: the quotient then either equals
  67/100 or is at least \<open>1 / (100 * total)\<close> away from it, far more than the rounding of
  either double.
\<close>

definition classify :: "nat \<Rightarrow> nat \<Rightarrow> nat \<Rightarrow> consistency" where
  "classify unique consistent total_n =
     (if unique = 1 then FullyConsistent
      else if (of_nat consistent / of_nat total_n :: rat) \<ge> 0.67 then MostlyConsistent
      else LowConsistency)"

text \<open>
  One iteration of the loop at lines 53-85, for the signatures \<open>sigs\<close> of one framework;
  \<open>None\<close> when \<open>sig_counts\<close> is empty and no entry is made.
\<close>

definition analyze_signatures :: "signature_info list \<Rightarrow> analysis option" where
  "analyze_signatures sigs =
     (let sig_counts = count_signatures sigs in
      case sig_counts of
        [] \<Rightarrow> None
      | first # rest \<Rightarrow>
          let most_common = max_by_count first rest;
              total = length sigs;
              consistent = snd most_common
          in Some \<lparr>res_signature = fst most_common,
                    res_count = consistent,
                    res_total = total,
                    res_consistency = dec_digits consistent @ ''/'' @ dec_digits total,
                    res_unique = length sig_counts,
                    all_signatures = map fst sig_counts,
                    consistency_class = classify (length sig_counts) consistent total\<rparr>)"

text \<open>The distinct elements of a list, in the order of their first occurrence.\<close>

fun first_occurrences :: "'a list \<Rightarrow> 'a list" where
  "first_occurrences [] = []"
| "first_occurrences (x # xs) = x # first_occurrences (filter (\<lambda>y. y \<noteq> x) xs)"

text \<open>An entry of \<open>signatures\<close> carrying the fingerprint \<open>s\<close>.\<close>

definition observed :: "string \<Rightarrow> signature_info" where
  "observed s = \<lparr>signature = s, sig_src = ''10.0.0.1'', sig_dst = ''10.0.0.2'',
                  sig_sport = 50000, sig_dport = 443, sig_version = 0x0303,
                  ciphers = 0, sig_extensions = 0\<rparr>"

section \<open>Parser: reading bytes\<close>

text \<open>
  The lemmas of this section describe the reads of a buffer \<open>B\<close> through a buffer \<open>buf\<close>
  that agrees with it on every offset \<open>B\<close> has; \<open>B\<close> is \<open>buf\<close> itself or a truncation of
  it.
\<close>

lemma getitem_agree:
  assumes "\<forall>i<length B. B ! i = buf ! i"
  shows "getitem B i = (if i < length B then Inr (buf ! i) else Inl IndexError)"
  using assms by (simp add: getitem_def)

lemma unpack_H_slice:
  assumes "\<forall>i<length B. B ! i = buf ! i"
  shows "unpack_H (slice B i (i + 2)) =
           (if i + 2 \<le> length B then Inr (u16_at buf i) else Inl StructError)"
proof (cases "i + 2 \<le> length B")
  case True
  then have "drop i B = B ! i # B ! (i + 1) # drop (i + 2) B"
    by (simp add: Cons_nth_drop_Suc)
  then have "slice B i (i + 2) = [B ! i, B ! (i + 1)]"
    by (simp add: slice_def)
  with True assms show ?thesis
    by (simp add: u16_at_def)
next
  case False
  show ?thesis
  proof (cases "i < length B")
    case True
    with False have "length (drop i B) = 1" by simp
    then obtain b where "drop i B = [b]"
      by (cases "drop i B") auto
    with False show ?thesis by (simp add: slice_def)
  next
    case False
    then show ?thesis by (simp add: slice_def)
  qed
qed

lemma unpack_H_agree:
  assumes "\<forall>i<length B. B ! i = buf ! i" and j: "j = i + 2"
  shows "unpack_H (slice B i j) =
           (if i + 2 \<le> length B then Inr (u16_at buf i) else Inl StructError)"
  unfolding j by (rule unpack_H_slice [OF assms(1)])

lemma cipher_loop_agree:
  assumes "\<forall>i<length B. B ! i = buf ! i"
  shows "cipher_loop B is off acc =
           Inr (acc @ map (\<lambda>k. u16_at buf (off + 2 * k))
                        [0 ..< min (length is) ((length B - off) div 2)],
                off + 2 * min (length is) ((length B - off) div 2))"
proof (induction "is" arbitrary: off acc)
  case Nil
  show ?case by simp
next
  case (Cons i rest)
  show ?case
  proof (cases "length B \<le> off + 1")
    case True
    then have "(length B - off) div 2 = 0" by simp
    with True show ?thesis by simp
  next
    case False
    then have d: "(length B - off) div 2 = Suc ((length B - (off + 2)) div 2)"
      by (simp add: le_div_geq)
    have u: "unpack_H (slice B off (off + 2)) = Inr (u16_at buf off)"
      using False by (simp add: unpack_H_agree [OF assms])
    show ?thesis
      using False
      by (simp add: u Cons.IH d map_upt_Suc add.assoc del: upt_Suc add_2_eq_Suc' add_2_eq_Suc)
  qed
qed

lemma length_range_step2: "length (range_step2 n) = (n + 1) div 2"
  by (simp add: range_step2_def)

lemma ext_loop_returns: "\<exists>more. ext_loop B off E eo exts = Inr (exts @ more)"
proof (induction B off E eo exts rule: ext_loop.induct)
  case (1 B off E eo exts)
  show ?case
  proof (cases "eo < off + E \<and> int eo < int (length B) - 3")
    case False
    have "ext_loop B off E eo exts = Inr exts"
      by (subst ext_loop.simps, subst if_not_P [OF False], rule refl)
    then show ?thesis by simp
  next
    case True
    then have len: "eo + 2 \<le> length B" "eo + 2 + 2 \<le> length B" by auto
    have a: "\<forall>i<length B. B ! i = B ! i" by simp
    have u1: "unpack_H (slice B eo (eo + 2)) = Inr (u16_at B eo)"
      using len by (simp add: unpack_H_agree [OF a])
    have u2: "unpack_H (slice B (eo + 2) (eo + 4)) = Inr (u16_at B (eo + 2))"
      using len by (simp add: unpack_H_agree [OF a])
    from "1.IH" [OF True u1 u2] obtain more where
      "ext_loop B off E (eo + 4 + u16_at B (eo + 2)) (exts @ [u16_at B eo]) = Inr ((exts @ [u16_at B eo]) @ more)"
      by blast
    then show ?thesis
      by (subst ext_loop.simps, subst if_P [OF True]) (simp add: u1 u2 del: add_2_eq_Suc' add_2_eq_Suc)
  qed
qed

lemma ext_loop_continue:
  assumes "ext_offset < offset + E" and "ext_offset + 4 \<le> length raw_data"
  shows "ext_loop raw_data offset E ext_offset exts =
           ext_loop raw_data offset E (ext_offset + 4 + u16_at raw_data (ext_offset + 2))
             (exts @ [u16_at raw_data ext_offset])"
proof -
  have a: "\<forall>i<length raw_data. raw_data ! i = raw_data ! i" by simp
  have c: "ext_offset < offset + E \<and> int ext_offset < int (length raw_data) - 3"
    using assms by auto
  have u1: "unpack_H (slice raw_data ext_offset (ext_offset + 2)) = Inr (u16_at raw_data ext_offset)"
    using assms by (simp add: unpack_H_agree [OF a])
  have u2: "unpack_H (slice raw_data (ext_offset + 2) (ext_offset + 4)) =
              Inr (u16_at raw_data (ext_offset + 2))"
    using assms by (simp add: unpack_H_agree [OF a])
  show ?thesis
    by (subst ext_loop.simps, subst if_P [OF c]) (simp add: u1 u2 del: add_2_eq_Suc' add_2_eq_Suc)
qed

lemma ext_loop_stop:
  assumes "\<not> (ext_offset < offset + E \<and> ext_offset + 4 \<le> length raw_data)"
  shows "ext_loop raw_data offset E ext_offset exts = Inr exts"
proof -
  have c: "\<not> (ext_offset < offset + E \<and> int ext_offset < int (length raw_data) - 3)"
    using assms by auto
  show ?thesis
    by (subst ext_loop.simps, subst if_not_P [OF c], rule refl)
qed

section \<open>Parser: where it fails and where it succeeds\<close>

lemma body_short:
  assumes agree: "\<forall>i<length B. B ! i = buf ! i"
    and short: "length B < extensions_offset buf"
  shows "client_hello_body B v 9 = Inr None"
proof -
  define sid where "sid = unat (buf ! 41)"
  define L where "L = u16_at buf (42 + sid)"
  define N where "N = (L + 1) div 2"
  define o3 where "o3 = 44 + sid + 2 * N"
  define comp where "comp = unat (buf ! o3)"
  have X: "extensions_offset buf = o3 + 1 + comp + 2"
    by (simp add: extensions_offset_def Let_def sid_def L_def N_def o3_def comp_def)
  show ?thesis
  proof (cases "length B \<le> 41")
    case True
    then show ?thesis by (simp add: client_hello_body_def)
  next
    case f1: False
    show ?thesis
    proof (cases "length B \<le> 42 + sid + 1")
      case True
      then show ?thesis using f1
        by (simp add: client_hello_body_def getitem_agree [OF agree] seq_def sid_def)
    next
      case f2: False
      define m where "m = min N ((length B - (44 + sid)) div 2)"
      have cl: "cipher_loop B (range_step2 L) (44 + sid) [] =
                  Inr (map (\<lambda>k. u16_at buf (44 + sid + 2 * k)) [0 ..< m], 44 + sid + 2 * m)"
        by (simp add: cipher_loop_agree [OF agree] length_range_step2 m_def N_def)
      show ?thesis
      proof (cases "m < N")
        case True
        then have "length B \<le> 44 + sid + 2 * m + 1"
          unfolding m_def by (simp add: min_def split: if_splits)
        then show ?thesis
          using f1 f2
          by (simp add: client_hello_body_def Let_def getitem_agree [OF agree]
                unpack_H_agree [OF agree] seq_def sid_def [symmetric] L_def [symmetric] cl)
      next
        case False
        then have mN: "m = N" unfolding m_def by simp
        show ?thesis
          using f1 f2 short X
          by (simp add: client_hello_body_def Let_def getitem_agree [OF agree]
                unpack_H_agree [OF agree] seq_def sid_def [symmetric] L_def [symmetric] cl mN
                o3_def [symmetric] comp_def [symmetric])
      qed
    qed
  qed
qed

lemma body_long:
  assumes agree: "\<forall>i<length B. B ! i = buf ! i"
    and long: "extensions_offset buf \<le> length B"
  shows "\<exists>tls. client_hello_body B v 9 = Inr (Some tls) \<and> version tls = v \<and> valid tls"
proof -
  define sid where "sid = unat (buf ! 41)"
  define L where "L = u16_at buf (42 + sid)"
  define N where "N = (L + 1) div 2"
  define o3 where "o3 = 44 + sid + 2 * N"
  define comp where "comp = unat (buf ! o3)"
  have X: "extensions_offset buf = o3 + 1 + comp + 2"
    by (simp add: extensions_offset_def Let_def sid_def L_def N_def o3_def comp_def)
  have o3: "44 + sid \<le> o3" by (simp add: o3_def)
  have "min N ((length B - (44 + sid)) div 2) = N"
    using long X by (simp add: o3_def)
  then have cl: "cipher_loop B (range_step2 L) (44 + sid) [] =
              Inr (map (\<lambda>k. u16_at buf (44 + sid + 2 * k)) [0 ..< N], o3)"
    by (simp add: cipher_loop_agree [OF agree] length_range_step2 N_def o3_def)
  obtain exts where
    el: "ext_loop B (o3 + 1 + comp + 2) (u16_at buf (o3 + 1 + comp)) (o3 + 1 + comp + 2) [] = Inr exts"
    using ext_loop_returns [of B "o3 + 1 + comp + 2" "u16_at buf (o3 + 1 + comp)" "o3 + 1 + comp + 2" "[]"]
    by auto
  have "client_hello_body B v 9 =
          Inr (Some \<lparr>version = v,
                      cipher_suites = map (\<lambda>k. u16_at buf (44 + sid + 2 * k)) [0 ..< N],
                      extensions = exts, alpn = 16 \<in> set exts, sni = 0 \<in> set exts,
                      valid = True\<rparr>)"
    using long X o3 el
    by (simp add: client_hello_body_def Let_def getitem_agree [OF agree]
          unpack_H_agree [OF agree] seq_def sid_def [symmetric] L_def [symmetric] cl
          comp_def [symmetric])
  then show ?thesis by simp
qed

lemma body_never_raises: "\<exists>r. client_hello_body B v 9 = Inr r"
proof (cases "length B < extensions_offset B")
  case True
  then show ?thesis using body_short [of B B v] by simp
next
  case False
  then show ?thesis using body_long [of B B v] by auto
qed

lemma parse_short:
  assumes agree: "\<forall>i<length B. B ! i = buf ! i"
    and short: "length B < extensions_offset buf"
  shows "parse_tls_client_hello B = Inr None"
  by (simp add: parse_tls_client_hello_def Let_def getitem_agree [OF agree]
        unpack_H_agree [OF agree] seq_def body_short [OF agree short])

lemma parse_long:
  assumes agree: "\<forall>i<length B. B ! i = buf ! i"
    and long: "extensions_offset buf \<le> length B"
    and hdr: "buf ! 0 = 0x16" "buf ! 5 = 0x01"
  shows "\<exists>tls. parse_tls_client_hello B = Inr (Some tls)"
proof -
  have "47 \<le> extensions_offset buf"
    by (simp add: extensions_offset_def Let_def)
  with long have len: "47 \<le> length B" "B \<noteq> []" by auto
  obtain tls where "client_hello_body B (u16_at buf 1) 9 = Inr (Some tls)"
    using body_long [OF agree long] by blast
  then show ?thesis
    using len hdr
    by (simp add: parse_tls_client_hello_def Let_def getitem_agree [OF agree]
        unpack_H_agree [OF agree] seq_def)
qed

lemma parse_never_raises: "\<exists>r. parse_tls_client_hello B = Inr r"
proof -
  have a: "\<forall>i<length B. B ! i = B ! i" by simp
  obtain r where "client_hello_body B (u16_at B 1) 9 = Inr r"
    using body_never_raises by blast
  then show ?thesis
    by (simp add: parse_tls_client_hello_def Let_def getitem_agree [OF a]
        unpack_H_agree [OF a] seq_def)
qed

lemma body_valid:
  assumes "client_hello_body B v 9 = Inr (Some tls)"
  shows "valid tls"
proof (cases "length B < extensions_offset B")
  case True
  then show ?thesis using body_short [of B B v] assms by simp
next
  case False
  then obtain tls' where "client_hello_body B v 9 = Inr (Some tls')" "valid tls'"
    using body_long [of B B v] by auto
  with assms show ?thesis by simp
qed

lemma parse_valid:
  assumes "parse_tls_client_hello B = Inr (Some tls)"
  shows "valid tls"
  using assms body_valid
  by (auto simp: parse_tls_client_hello_def seq_def Let_def split: if_splits sum.splits)

lemma parse_overrun_hello: "parse_tls_client_hello overrun_hello = Inr (Some overrun_tls)"
  by code_simp

section \<open>Parser: the claims\<close>

text \<open>
  C1 (the session-ID length is read at offset 43 of the record, after the client version
  and the random). On the well-formed ClientHello \<open>wellformed_hello\<close>, whose session-ID
  length byte at offset 43 is 0 and whose only cipher suite is 0x1301, the code reads
  the length at offset 41, inside the random: it finds no cipher suite and takes bytes
  of the cipher and compression fields for an extension header.
\<close>

theorem parse_wellformed_hello_misaligned:
  "parse_tls_client_hello wellformed_hello =
     Inr (Some \<lparr>version = 0x0301, cipher_suites = [], extensions = [257],
                 alpn = False, sni = False, valid = True\<rparr>)"
  by code_simp

text \<open>
  C4, as stated (an odd cipher-suite-block length \<open>L\<close> yields \<open>L div 2\<close> codes and the
  odd byte is ignored), fails: with \<open>L = 3\<close> the code reads two codes, the second made
  of the odd byte 13 and the byte 01 that follows the block.
\<close>

theorem odd_cipher_block_counterexample:
  "u16_at odd_block_hello 42 = 3 \<and>
   parse_tls_client_hello odd_block_hello =
     Inr (Some \<lparr>version = 0x0301, cipher_suites = [0x1301, 0x1301], extensions = [],
                 alpn = False, sni = False, valid = True\<rparr>) \<and>
   length [0x1301, 0x1301 :: nat] \<noteq> 3 div 2"
  by code_simp

text \<open>
  C4, amended: when the cipher-suite-block length \<open>L\<close> is odd and at least \<open>L + 1\<close> bytes
  follow the length field, the loop reads \<open>L div 2 + 1\<close> big-endian codes, the last one
  made of the odd byte and of the byte after the block, and the compression-methods
  length is read \<open>L + 1\<close> bytes after the start of the block.
\<close>

theorem cipher_loop_odd_length:
  assumes "odd L" and "offset + L + 1 \<le> length raw_data"
  shows "cipher_loop raw_data (range_step2 L) offset [] =
           Inr (map (\<lambda>k. u16_at raw_data (offset + 2 * k)) [0 ..< L div 2 + 1],
                offset + L + 1)"
proof -
  have a: "\<forall>i<length raw_data. raw_data ! i = raw_data ! i" by simp
  from \<open>odd L\<close> obtain h where L: "L = 2 * h + 1" by (auto elim: oddE)
  have N: "(L + 1) div 2 = L div 2 + 1" "2 * (L div 2 + 1) = L + 1"
    by (simp_all add: L)
  have m: "min (length (range_step2 L)) ((length raw_data - offset) div 2) = L div 2 + 1"
    using assms(2) L by (simp add: length_range_step2)
  show ?thesis
    unfolding cipher_loop_agree [OF a] m N(2) by (simp add: add.assoc)
qed

theorem cipher_loop_odd_length_witness:
  "odd (3::nat) \<and> 44 + 3 + 1 \<le> length odd_block_hello \<and>
   cipher_loop odd_block_hello (range_step2 3) 44 [] = Inr ([0x1301, 0x1301], 48)"
  using cipher_loop_odd_length [of 3 44 odd_block_hello]
  by (simp add: odd_block_hello_def prefix41_def u16_at_def nth_append)

text \<open>
  C5, as stated (an extension type is recorded only when its whole 4-byte header lies
  within the declared extensions block), fails: with a declared block of one byte the
  code records the type 16 of a header of which three bytes lie outside the block.
\<close>

theorem short_extensions_block_counterexample:
  "u16_at short_block_hello 45 = 1 \<and>
   parse_tls_client_hello short_block_hello =
     Inr (Some \<lparr>version = 0x0301, cipher_suites = [], extensions = [16],
                 alpn = True, sni = False, valid = True\<rparr>)"
  by code_simp

text \<open>
  C5, amended: the extensions loop records an extension type exactly when the first
  byte of its header lies within the declared extensions block and the whole 4-byte
  header lies within the buffer, and then moves on by 4 plus the extension's length;
  otherwise it stops. It never raises, and what it returns begins with the types
  collected so far.
\<close>

theorem ext_loop_guard:
  "(ext_offset < offset + E \<and> ext_offset + 4 \<le> length raw_data \<longrightarrow>
      ext_loop raw_data offset E ext_offset exts =
        ext_loop raw_data offset E (ext_offset + 4 + u16_at raw_data (ext_offset + 2))
          (exts @ [u16_at raw_data ext_offset])) \<and>
   (\<not> (ext_offset < offset + E \<and> ext_offset + 4 \<le> length raw_data) \<longrightarrow>
      ext_loop raw_data offset E ext_offset exts = Inr exts) \<and>
   (\<exists>more. ext_loop raw_data offset E ext_offset exts = Inr (exts @ more))"
  using ext_loop_continue [of ext_offset offset E raw_data exts]
    ext_loop_stop [of ext_offset offset E raw_data exts]
    ext_loop_returns [of raw_data offset E ext_offset exts]
  by blast

theorem ext_loop_guard_witness:
  "47 < 47 + (1::nat) \<and> 47 + 4 \<le> length short_block_hello \<and>
   \<not> (51 < 47 + (1::nat) \<and> 51 + 4 \<le> length short_block_hello) \<and>
   ext_loop short_block_hello 47 1 47 [] = Inr [16]"
  using ext_loop_guard [of 47 47 1 short_block_hello "[]"]
    ext_loop_guard [of 51 47 1 short_block_hello "[16]"]
  by (simp add: short_block_hello_def prefix41_def u16_at_def nth_append)

text \<open>
  C6, as stated (a declared length that overruns the buffer at any step is a failure),
  fails: \<open>overrun_hello\<close> declares 8 bytes of extensions and holds 4, and is parsed.
\<close>

theorem declared_overrun_counterexample:
  "length overrun_hello = 51 \<and> u16_at overrun_hello 45 = 8 \<and>
   parse_tls_client_hello overrun_hello =
     Inr (Some \<lparr>version = 0x0301, cipher_suites = [], extensions = [0],
                 alpn = False, sni = True, valid = True\<rparr>)"
  using parse_overrun_hello
  by (simp add: overrun_tls_def overrun_hello_def prefix41_def u16_at_def nth_append)

text \<open>
  C6, amended: \<open>parse_tls_client_hello\<close> returns \<open>None\<close>, its only failure value, for
  every buffer of fewer than 5 bytes and every buffer whose first byte is not 0x16;
  for every buffer that ends before the extensions-length field, as the declared
  session-ID, cipher-suite and compression lengths place it, is complete; and so for
  every truncation \<open>take k\<close> of a buffer before that point. A ClientHello truncated at
  or after that point, inside its extensions, is still parsed. No buffer makes the
  function or the body of its \<open>try\<close> block raise.
\<close>

theorem parse_failures:
  "(length raw_data < 5 \<longrightarrow> parse_tls_client_hello raw_data = Inr None) \<and>
   (raw_data \<noteq> [] \<and> raw_data ! 0 \<noteq> 0x16 \<longrightarrow> parse_tls_client_hello raw_data = Inr None) \<and>
   (length raw_data < extensions_offset raw_data \<longrightarrow>
      parse_tls_client_hello raw_data = Inr None) \<and>
   (k < extensions_offset raw_data \<longrightarrow>
      parse_tls_client_hello (take k raw_data) = Inr None) \<and>
   (extensions_offset raw_data \<le> k \<and> extensions_offset raw_data \<le> length raw_data \<and>
    raw_data ! 0 = 0x16 \<and> raw_data ! 5 = 0x01 \<longrightarrow>
      (\<exists>tls. parse_tls_client_hello (take k raw_data) = Inr (Some tls))) \<and>
   (\<exists>r. parse_tls_client_hello raw_data = Inr r) \<and>
   (\<exists>r. client_hello_body raw_data record_version 9 = Inr r)"
proof -
  have a: "\<forall>i<length raw_data. raw_data ! i = raw_data ! i" by simp
  have t: "\<forall>i<length (take k raw_data). take k raw_data ! i = raw_data ! i" by simp
  have 1: "length raw_data < 5 \<Longrightarrow> parse_tls_client_hello raw_data = Inr None"
    by (simp add: parse_tls_client_hello_def)
  have 2: "raw_data \<noteq> [] \<and> raw_data ! 0 \<noteq> 0x16 \<Longrightarrow> parse_tls_client_hello raw_data = Inr None"
    by (simp add: parse_tls_client_hello_def getitem_def seq_def)
  have 3: "length raw_data < extensions_offset raw_data \<Longrightarrow>
      parse_tls_client_hello raw_data = Inr None"
    by (rule parse_short [OF a])
  have 4: "k < extensions_offset raw_data \<Longrightarrow>
      parse_tls_client_hello (take k raw_data) = Inr None"
    by (rule parse_short [OF t]) simp
  have 5: "extensions_offset raw_data \<le> k \<and> extensions_offset raw_data \<le> length raw_data \<and>
    raw_data ! 0 = 0x16 \<and> raw_data ! 5 = 0x01 \<Longrightarrow>
      (\<exists>tls. parse_tls_client_hello (take k raw_data) = Inr (Some tls))"
    by (rule parse_long [OF t]) simp_all
  show ?thesis
    using 1 2 3 4 5 parse_never_raises [of raw_data] body_never_raises [of raw_data record_version]
    by blast
qed

theorem parse_failures_witness:
  "parse_tls_client_hello [0x16, 0x03, 0x01] = Inr None \<and>
   parse_tls_client_hello (0x17 # tl overrun_hello) = Inr None \<and>
   extensions_offset overrun_hello = 47 \<and>
   parse_tls_client_hello (take 46 overrun_hello) = Inr None \<and>
   (\<exists>tls. parse_tls_client_hello (take 49 overrun_hello) = Inr (Some tls))"
  using parse_failures [of "[0x16, 0x03, 0x01]" 0 0]
    parse_failures [of "0x17 # tl overrun_hello" 0 0]
    parse_failures [of "take 46 overrun_hello" 46 0]
    parse_failures [of overrun_hello 46 0]
    parse_failures [of overrun_hello 49 0]
  by (simp add: overrun_hello_def prefix41_def extensions_offset_def u16_at_def nth_append)

section \<open>Encoder: the claims\<close>

lemma sort_mset_eq: "mset xs = mset ys \<Longrightarrow> sort xs = sort (ys::nat list)"
  using properties_for_sort [of "sort ys" xs] by simp

lemma digit_char_dec: "d < 10 \<Longrightarrow> digit_char d = ''0123456789'' ! d"
  unfolding digit_char_def
  by (cases d rule: nat.exhaust; simp add: nth_Cons' )

lemma fmt_02d_two: "n < 100 \<Longrightarrow> fmt_02d n = [''0123456789'' ! (n div 10), ''0123456789'' ! (n mod 10)]"
proof -
  assume n: "n < 100"
  have a: "n div 10 < 10" "n mod 10 < 10" using n by auto
  show ?thesis
  proof (cases "n < 10")
    case True
    then show ?thesis
      by (simp add: fmt_02d_def zero_pad_def digit_char_dec)
  next
    case False
    then have "dec_digits n = [digit_char (n div 10), digit_char (n mod 10)]"
      using a by (subst dec_digits.simps) simp
    then show ?thesis using a
      by (simp add: fmt_02d_def zero_pad_def digit_char_dec)
  qed
qed

text \<open>
  C7: the fingerprint does not change when the cipher suites and the extension types
  are replaced by lists with the same multisets, that is, by permutations of them.
\<close>

theorem fingerprint_order_invariant:
  assumes "mset cs = mset (cipher_suites tls)" and "mset es = mset (extensions tls)"
  shows "calculate_ja4_improved h (tls\<lparr>cipher_suites := cs, extensions := es\<rparr>)
         = calculate_ja4_improved h tls"
proof -
  have "sort cs = sort (cipher_suites tls)" "sort es = sort (extensions tls)"
    using assms by (auto intro: sort_mset_eq)
  moreover have "length cs = length (cipher_suites tls)" "length es = length (extensions tls)"
    using assms by (auto dest: mset_eq_length)
  ultimately show ?thesis
    by (simp add: calculate_ja4_improved_def)
qed

theorem fingerprint_order_invariant_witness:
  "mset [0x1302, 0x1301 :: nat] =
     mset (cipher_suites \<lparr>version = 0x0303, cipher_suites = [0x1301, 0x1302],
                          extensions = [0, 16], alpn = True, sni = True, valid = True\<rparr>) \<and>
   mset [16, 0 :: nat] =
     mset (extensions \<lparr>version = 0x0303, cipher_suites = [0x1301, 0x1302],
                       extensions = [0, 16], alpn = True, sni = True, valid = True\<rparr>) \<and>
   calculate_ja4_improved (\<lambda>s. s)
     \<lparr>version = 0x0303, cipher_suites = [0x1302, 0x1301], extensions = [16, 0],
      alpn = True, sni = True, valid = True\<rparr> =
   calculate_ja4_improved (\<lambda>s. s)
     \<lparr>version = 0x0303, cipher_suites = [0x1301, 0x1302], extensions = [0, 16],
      alpn = True, sni = True, valid = True\<rparr>"
  using fingerprint_order_invariant [of "[0x1302, 0x1301]"
      "\<lparr>version = 0x0303, cipher_suites = [0x1301, 0x1302], extensions = [0, 16],
        alpn = True, sni = True, valid = True\<rparr>" "[16, 0]" "\<lambda>s. s"]
  by simp

text \<open>
  C8: the fingerprint begins with the version tag (\<open>t10\<close>, \<open>t11\<close>, \<open>t12\<close> for 0x0301,
  0x0302, 0x0303 and \<open>t13\<close> for 0x0304 and every other version), the SNI flag, the two
  counts, each clamped to 99 and written as two decimal digits, and the ALPN flag; the
  two hash segments follow. A count of 99 or more is written \<open>99\<close>.
\<close>

theorem fingerprint_prefix:
  "calculate_ja4_improved h tls =
     (if version tls = 0x0301 then ''t10'' else if version tls = 0x0302 then ''t11''
      else if version tls = 0x0303 then ''t12'' else ''t13'')
     @ (if sni tls then ''d'' else ''i'')
     @ [''0123456789'' ! (min (length (cipher_suites tls)) 99 div 10),
        ''0123456789'' ! (min (length (cipher_suites tls)) 99 mod 10)]
     @ [''0123456789'' ! (min (length (extensions tls)) 99 div 10),
        ''0123456789'' ! (min (length (extensions tls)) 99 mod 10)]
     @ (if alpn tls then ''h2'' else ''00'')
     @ ''_'' @ take 12 (h (join '','' (map fmt_04x (sort (cipher_suites tls)))))
     @ ''_'' @ take 12 (h (join '','' (map fmt_04x (sort (extensions tls))))) \<and>
   (version tls \<notin> {0x0301, 0x0302, 0x0303} \<longrightarrow>
      take 3 (calculate_ja4_improved h tls) = ''t13'') \<and>
   (99 \<le> length (cipher_suites tls) \<longrightarrow>
      take 2 (drop 4 (calculate_ja4_improved h tls)) = ''99'') \<and>
   (99 \<le> length (extensions tls) \<longrightarrow>
      take 2 (drop 6 (calculate_ja4_improved h tls)) = ''99'')"
proof -
  have v: "dict_get version_map (version tls) ''t13'' =
     (if version tls = 0x0301 then ''t10'' else if version tls = 0x0302 then ''t11''
      else if version tls = 0x0303 then ''t12'' else ''t13'')"
    by (simp add: dict_get_def version_map_def)
  have c: "min (length (cipher_suites tls)) 99 < 100" "min (length (extensions tls)) 99 < 100"
    by simp_all
  have eq: "calculate_ja4_improved h tls =
     (if version tls = 0x0301 then ''t10'' else if version tls = 0x0302 then ''t11''
      else if version tls = 0x0303 then ''t12'' else ''t13'')
     @ (if sni tls then ''d'' else ''i'')
     @ [''0123456789'' ! (min (length (cipher_suites tls)) 99 div 10),
        ''0123456789'' ! (min (length (cipher_suites tls)) 99 mod 10)]
     @ [''0123456789'' ! (min (length (extensions tls)) 99 div 10),
        ''0123456789'' ! (min (length (extensions tls)) 99 mod 10)]
     @ (if alpn tls then ''h2'' else ''00'')
     @ ''_'' @ take 12 (h (join '','' (map fmt_04x (sort (cipher_suites tls)))))
     @ ''_'' @ take 12 (h (join '','' (map fmt_04x (sort (extensions tls)))))"
    unfolding calculate_ja4_improved_def Let_def v fmt_02d_two [OF c(1)] fmt_02d_two [OF c(2)]
    by simp
  have t: "version tls \<notin> {0x0301, 0x0302, 0x0303} \<Longrightarrow>
      take 3 (calculate_ja4_improved h tls) = ''t13''"
    unfolding eq by simp
  have cc: "99 \<le> length (cipher_suites tls) \<Longrightarrow>
      take 2 (drop 4 (calculate_ja4_improved h tls)) = ''99''"
    unfolding eq by (simp add: min_def)
  have ec: "99 \<le> length (extensions tls) \<Longrightarrow>
      take 2 (drop 6 (calculate_ja4_improved h tls)) = ''99''"
    unfolding eq by (simp add: min_def)
  show ?thesis using eq t cc ec by blast
qed

theorem fingerprint_prefix_witness:
  "(0x0305 :: nat) \<notin> {0x0301, 0x0302, 0x0303} \<and>
   99 \<le> length (replicate 150 (0x1301 :: nat)) \<and> 99 \<le> length (replicate 120 (10 :: nat)) \<and>
   take 10 (calculate_ja4_improved (\<lambda>s. s)
     \<lparr>version = 0x0305, cipher_suites = replicate 150 0x1301, extensions = replicate 120 10,
      alpn = True, sni = False, valid = True\<rparr>) = ''t13i9999h2''"
  using fingerprint_prefix [of "\<lambda>s. s"
     "\<lparr>version = 0x0305, cipher_suites = replicate 150 0x1301, extensions = replicate 120 10,
      alpn = True, sni = False, valid = True\<rparr>"]
  by simp

section \<open>Deduplicator: one step and the loop\<close>

lemma conn_id_reversed: "conn_id (reversed pkt) = conn_id pkt"
  by (auto simp: conn_id_def reversed_def)

lemma sig_conn_id_signature_of: "sig_conn_id (signature_of h pkt tls) = conn_id pkt"
  by (simp add: sig_conn_id_def signature_of_def conn_id_def)

lemma observation_conn_id: "observation_of h pkt = Some s \<Longrightarrow> sig_conn_id s = conn_id pkt"
  by (auto simp: observation_of_def sig_conn_id_signature_of
           split: if_splits option.splits sum.splits)

lemma process_packet_eq:
  "process_packet h st pkt =
     Inr (if conn_id pkt \<in> seen_connections st then st
          else case observation_of h pkt of
                 None \<Rightarrow> st
               | Some s \<Rightarrow> \<lparr>signatures = signatures st @ [s],
                             seen_connections = insert (conn_id pkt) (seen_connections st)\<rparr>)"
proof (cases "raw pkt")
  case None
  then show ?thesis by (simp add: process_packet_def observation_of_def)
next
  case (Some d)
  obtain r where r: "parse_tls_client_hello d = Inr r"
    using parse_never_raises by blast
  show ?thesis
  proof (cases r)
    case None
    with Some r show ?thesis
      by (simp add: process_packet_def observation_of_def seq_def)
  next
    case tls: (Some tls)
    with r have "valid tls" by (simp add: parse_valid)
    with Some r tls show ?thesis
      by (simp add: process_packet_def observation_of_def seq_def signature_of_def)
  qed
qed

lemma process_tracked:
  assumes "flows_tracked st" and "process_packet h st pkt = Inr st'"
  shows "flows_tracked st'"
proof (cases "conn_id pkt \<in> seen_connections st")
  case True
  with assms show ?thesis by (simp add: process_packet_eq)
next
  case False
  show ?thesis
  proof (cases "observation_of h pkt")
    case None
    with False assms show ?thesis by (simp add: process_packet_eq)
  next
    case (Some s)
    from assms(1) False have "conn_id pkt \<notin> sig_conn_id ` set (signatures st)"
      by (auto simp: flows_tracked_def)
    with assms(1) have "flows_tracked \<lparr>signatures = signatures st @ [s],
                seen_connections = insert (conn_id pkt) (seen_connections st)\<rparr>"
      by (auto simp: flows_tracked_def observation_conn_id [OF Some])
    with False Some assms(2) show ?thesis by (simp add: process_packet_eq)
  qed
qed

lemma loop_total: "\<exists>st'. packets_loop h st pkts = Inr st'"
  by (induction pkts arbitrary: st) (simp_all add: process_packet_eq)

lemma loop_tracked:
  "flows_tracked st \<Longrightarrow> packets_loop h st pkts = Inr st' \<Longrightarrow> flows_tracked st'"
proof (induction pkts arbitrary: st)
  case Nil
  then show ?case by simp
next
  case (Cons pkt rest)
  obtain st1 where s: "process_packet h st pkt = Inr st1"
    by (simp add: process_packet_eq)
  from process_tracked [OF Cons.prems(1) s] Cons.IH [of st1] Cons.prems(2) s
  show ?case by simp
qed

lemma loop_unseen:
  "\<forall>q\<in>set pkts. conn_id q = k \<longrightarrow> observation_of h q = None \<Longrightarrow>
   k \<notin> seen_connections st \<Longrightarrow> packets_loop h st pkts = Inr st' \<Longrightarrow>
   k \<notin> seen_connections st'"
proof (induction pkts arbitrary: st)
  case Nil
  then show ?case by simp
next
  case (Cons pkt rest)
  obtain st1 where s: "process_packet h st pkt = Inr st1"
    by (simp add: process_packet_eq)
  have "k \<notin> seen_connections st1"
    using s Cons.prems(1,2)
    by (auto simp: process_packet_eq split: if_splits option.splits)
  with Cons.IH [of st1] Cons.prems s show ?case by simp
qed

lemma loop_keeps:
  "s \<in> set (signatures st) \<Longrightarrow> packets_loop h st pkts = Inr st' \<Longrightarrow>
   s \<in> set (signatures st')"
proof (induction pkts arbitrary: st)
  case Nil
  then show ?case by simp
next
  case (Cons pkt rest)
  obtain st1 where s1: "process_packet h st pkt = Inr st1"
    by (simp add: process_packet_eq)
  have "s \<in> set (signatures st1)"
    using s1 Cons.prems(1)
    by (auto simp: process_packet_eq split: if_splits option.splits)
  with Cons.IH [of st1] Cons.prems s1 show ?case by simp
qed

lemma loop_append:
  "packets_loop h st (xs @ ys) =
     (case packets_loop h st xs of Inl e \<Rightarrow> Inl e | Inr st1 \<Rightarrow> packets_loop h st1 ys)"
  by (induction xs arbitrary: st) (simp_all add: process_packet_eq)

lemma loop_first_of_flow:
  assumes obs: "observation_of h p = Some s"
    and pre: "\<forall>q\<in>set pre. conn_id q = conn_id p \<longrightarrow> observation_of h q = None"
    and new: "conn_id p \<notin> seen_connections st"
  shows "\<exists>st'. packets_loop h st (pre @ p # post) = Inr st' \<and> s \<in> set (signatures st')"
proof -
  obtain st1 where 1: "packets_loop h st pre = Inr st1"
    using loop_total by blast
  have u: "conn_id p \<notin> seen_connections st1"
    by (rule loop_unseen [OF pre new 1])
  define st2 where "st2 = \<lparr>signatures = signatures st1 @ [s],
                             seen_connections = insert (conn_id p) (seen_connections st1)\<rparr>"
  have 2: "process_packet h st1 p = Inr st2"
    using u obs by (simp add: process_packet_eq st2_def)
  obtain st3 where 3: "packets_loop h st2 post = Inr st3"
    using loop_total by blast
  have "s \<in> set (signatures st2)" by (simp add: st2_def)
  then have "s \<in> set (signatures st3)" by (rule loop_keeps [OF _ 3])
  moreover have "packets_loop h st (pre @ p # post) = Inr st3"
    by (simp add: loop_append 1 2 3)
  ultimately show ?thesis by blast
qed

lemma observation_hello_packet:
  "observation_of h hello_packet = Some (signature_of h hello_packet overrun_tls)"
  by (simp add: observation_of_def hello_packet_def parse_overrun_hello)

lemma observation_data_packet: "observation_of h data_packet = None"
  by (simp add: observation_of_def data_packet_def parse_tls_client_hello_def getitem_def seq_def)

section \<open>Deduplicator: the claims\<close>

text \<open>
  C9: a packet and the same packet with source and destination swapped have the same
  flow key; the entries returned for a capture have pairwise distinct flows; the first
  packet of a flow that yields an entry (no earlier packet of that flow does) has its
  entry in the result, whatever the packets of other flows around it; a packet of a flow
  already seen is skipped; a packet that yields no entry leaves the state, and so the
  set of seen flows, as it was; a packet of an unseen flow that yields an entry appends
  it and marks the flow, whatever other flows the state holds.
\<close>

theorem one_observation_per_flow:
  "conn_id (reversed pkt) = conn_id pkt \<and>
   (\<exists>sigs. extract_ja4_from_pcap h pkts = Inr sigs \<and> distinct (map sig_conn_id sigs)) \<and>
   (observation_of h p = Some s \<and>
    (\<forall>q\<in>set pre. conn_id q = conn_id p \<longrightarrow> observation_of h q = None) \<longrightarrow>
      sig_conn_id s = conn_id p \<and>
      (\<exists>sigs. extract_ja4_from_pcap h (pre @ p # post) = Inr sigs \<and> s \<in> set sigs)) \<and>
   (conn_id pkt \<in> seen_connections st \<longrightarrow> process_packet h st pkt = Inr st) \<and>
   (observation_of h pkt = None \<longrightarrow> process_packet h st pkt = Inr st) \<and>
   (conn_id pkt \<notin> seen_connections st \<and> observation_of h pkt = Some s' \<longrightarrow>
      process_packet h st pkt =
        Inr \<lparr>signatures = signatures st @ [s'],
             seen_connections = insert (conn_id pkt) (seen_connections st)\<rparr>)"
proof -
  let ?st0 = "\<lparr>signatures = [], seen_connections = {}\<rparr>"
  have t0: "flows_tracked ?st0" by (simp add: flows_tracked_def)
  obtain st' where l: "packets_loop h ?st0 pkts = Inr st'"
    using loop_total by blast
  have "flows_tracked st'" by (rule loop_tracked [OF t0 l])
  then have b: "\<exists>sigs. extract_ja4_from_pcap h pkts = Inr sigs \<and> distinct (map sig_conn_id sigs)"
    using l by (simp add: extract_ja4_from_pcap_def seq_def flows_tracked_def)
  have c: "\<exists>sigs. extract_ja4_from_pcap h (pre @ p # post) = Inr sigs \<and> s \<in> set sigs"
    if "observation_of h p = Some s"
      and "\<forall>q\<in>set pre. conn_id q = conn_id p \<longrightarrow> observation_of h q = None"
  proof -
    from loop_first_of_flow [OF that, of ?st0 post] obtain st3 where
      "packets_loop h ?st0 (pre @ p # post) = Inr st3" "s \<in> set (signatures st3)"
      by auto
    then show ?thesis by (simp add: extract_ja4_from_pcap_def seq_def)
  qed
  show ?thesis
    using b c conn_id_reversed [of pkt] observation_conn_id [of h p s]
    by (simp add: process_packet_eq)
qed

theorem one_observation_per_flow_witness:
  "observation_of (\<lambda>s. s) hello_packet = Some (signature_of (\<lambda>s. s) hello_packet overrun_tls) \<and>
   conn_id data_packet = conn_id hello_packet \<and>
   observation_of (\<lambda>s. s) data_packet = None \<and>
   (\<exists>sigs. extract_ja4_from_pcap (\<lambda>s. s) ([data_packet] @ hello_packet # [reversed hello_packet]) = Inr sigs \<and>
      signature_of (\<lambda>s. s) hello_packet overrun_tls \<in> set sigs) \<and>
   conn_id (reversed hello_packet) \<in> seen_connections
      \<lparr>signatures = [signature_of (\<lambda>s. s) hello_packet overrun_tls],
       seen_connections = {conn_id hello_packet}\<rparr> \<and>
   process_packet (\<lambda>s. s)
      \<lparr>signatures = [signature_of (\<lambda>s. s) hello_packet overrun_tls],
       seen_connections = {conn_id hello_packet}\<rparr> (reversed hello_packet) =
     Inr \<lparr>signatures = [signature_of (\<lambda>s. s) hello_packet overrun_tls],
          seen_connections = {conn_id hello_packet}\<rparr> \<and>
   process_packet (\<lambda>s. s) \<lparr>signatures = [], seen_connections = {}\<rparr> data_packet =
     Inr \<lparr>signatures = [], seen_connections = {}\<rparr> \<and>
   process_packet (\<lambda>s. s) \<lparr>signatures = [], seen_connections = {}\<rparr> hello_packet =
     Inr \<lparr>signatures = [signature_of (\<lambda>s. s) hello_packet overrun_tls],
          seen_connections = {conn_id hello_packet}\<rparr>"
  using
    one_observation_per_flow [of "reversed hello_packet" "\<lambda>s. s" "[]" hello_packet
       "signature_of (\<lambda>s. s) hello_packet overrun_tls" "[data_packet]" "[reversed hello_packet]"
       "\<lparr>signatures = [signature_of (\<lambda>s. s) hello_packet overrun_tls],
         seen_connections = {conn_id hello_packet}\<rparr>"
       "signature_of (\<lambda>s. s) hello_packet overrun_tls"]
    one_observation_per_flow [of data_packet "\<lambda>s. s" "[]" hello_packet
       "signature_of (\<lambda>s. s) hello_packet overrun_tls" "[data_packet]" "[reversed hello_packet]"
       "\<lparr>signatures = [], seen_connections = {}\<rparr>"
       "signature_of (\<lambda>s. s) hello_packet overrun_tls"]
    one_observation_per_flow [of hello_packet "\<lambda>s. s" "[]" hello_packet
       "signature_of (\<lambda>s. s) hello_packet overrun_tls" "[data_packet]" "[reversed hello_packet]"
       "\<lparr>signatures = [], seen_connections = {}\<rparr>"
       "signature_of (\<lambda>s. s) hello_packet overrun_tls"]
    observation_hello_packet [of "\<lambda>s. s"] observation_data_packet [of "\<lambda>s. s"]
  by (simp add: conn_id_def data_packet_def hello_packet_def)

text \<open>
  C10: a packet whose source port and destination port both differ from 443 leaves the
  state as it was, signatures and seen flows alike, whatever its payload; a capture made
  of such packets yields no entry.
\<close>

theorem non_https_packet_ignored:
  "(sport pkt \<noteq> 443 \<and> dport pkt \<noteq> 443 \<longrightarrow> process_packet h st pkt = Inr st) \<and>
   ((\<forall>p\<in>set pkts. sport p \<noteq> 443 \<and> dport p \<noteq> 443) \<longrightarrow> extract_ja4_from_pcap h pkts = Inr [])"
proof -
  have step: "process_packet h st p = Inr st" if "sport p \<noteq> 443 \<and> dport p \<noteq> 443" for st p
    using that by (simp add: process_packet_def)
  have loop: "packets_loop h st ps = Inr st" if "\<forall>p\<in>set ps. sport p \<noteq> 443 \<and> dport p \<noteq> 443" for st ps
    using that by (induction ps) (simp_all add: step)
  show ?thesis
    using step [of pkt st] loop [of pkts "\<lparr>signatures = [], seen_connections = {}\<rparr>"]
    by (simp add: extract_ja4_from_pcap_def seq_def)
qed

theorem non_https_packet_ignored_witness:
  "sport other_port_packet \<noteq> 443 \<and> dport other_port_packet \<noteq> 443 \<and>
   raw other_port_packet = Some overrun_hello \<and>
   parse_tls_client_hello overrun_hello = Inr (Some overrun_tls) \<and>
   process_packet (\<lambda>s. s) \<lparr>signatures = [], seen_connections = {}\<rparr> other_port_packet =
     Inr \<lparr>signatures = [], seen_connections = {}\<rparr> \<and>
   extract_ja4_from_pcap (\<lambda>s. s) [other_port_packet] = Inr []"
  using non_https_packet_ignored [of other_port_packet "\<lambda>s. s"
      "\<lparr>signatures = [], seen_connections = {}\<rparr>" "[other_port_packet]"]
    parse_overrun_hello
  by (simp add: other_port_packet_def)

section \<open>Signature analysis: counting and the maximum\<close>

lemma set_first_occurrences: "set (first_occurrences xs) = set xs"
  by (induction xs rule: first_occurrences.induct) auto

lemma filter_first_occurrences:
  "filter P (first_occurrences xs) = first_occurrences (filter P xs)"
proof (induction xs rule: first_occurrences.induct)
  case 1
  show ?case by simp
next
  case (2 x xs)
  have c: "filter P (filter (\<lambda>y. y \<noteq> x) xs) = filter (\<lambda>y. y \<noteq> x) (filter P xs)"
    by (simp add: conj_commute)
  show ?case
  proof (cases "P x")
    case True
    with 2 c show ?thesis by simp
  next
    case False
    then have "filter (\<lambda>y. y \<noteq> x) (filter P xs) = filter P xs"
      by (auto intro: filter_cong)
    with False 2 c show ?thesis by simp
  qed
qed

lemma hd_first_occurrences: "hd (first_occurrences xs) = hd xs"
  by (cases xs) simp_all

lemma first_occurrences_Nil: "first_occurrences xs = [] \<longleftrightarrow> xs = []"
  by (cases xs) simp_all

lemma increment_map:
  assumes "distinct ks"
  shows "increment (map (\<lambda>k. (k, f k)) ks) x =
           (if x \<in> set ks then map (\<lambda>k. (k, (f(x := f x + 1)) k)) ks
            else map (\<lambda>k. (k, f k)) ks @ [(x, 1)])"
  using assms by (induction ks) auto

lemma foldl_increment:
  assumes "distinct ks" and "\<forall>k. k \<notin> set ks \<longrightarrow> f k = 0"
  shows "foldl increment (map (\<lambda>k. (k, f k)) ks) xs =
           map (\<lambda>k. (k, f k + count_list xs k))
               (ks @ first_occurrences (filter (\<lambda>x. x \<notin> set ks) xs))"
  using assms
proof (induction xs arbitrary: ks f)
  case Nil
  show ?case by simp
next
  case (Cons x xs)
  let ?g = "f(x := f x + 1)"
  show ?case
  proof (cases "x \<in> set ks")
    case True
    have g: "\<forall>k. k \<notin> set ks \<longrightarrow> ?g k = 0" using Cons.prems(2) True by auto
    have "foldl increment (map (\<lambda>k. (k, f k)) ks) (x # xs) =
          foldl increment (map (\<lambda>k. (k, ?g k)) ks) xs"
      using True by (simp add: increment_map [OF Cons.prems(1)])
    also have "\<dots> = map (\<lambda>k. (k, ?g k + count_list xs k))
               (ks @ first_occurrences (filter (\<lambda>x. x \<notin> set ks) xs))"
      by (rule Cons.IH [OF Cons.prems(1) g])
    also have "\<dots> = map (\<lambda>k. (k, f k + count_list (x # xs) k))
               (ks @ first_occurrences (filter (\<lambda>x. x \<notin> set ks) (x # xs)))"
      using True by auto
    finally show ?thesis .
  next
    case False
    have d: "distinct (ks @ [x])" using False Cons.prems(1) by simp
    have g: "\<forall>k. k \<notin> set (ks @ [x]) \<longrightarrow> ?g k = 0" using Cons.prems(2) by auto
    have fx: "f x = 0" using False Cons.prems(2) by simp
    have same: "map (\<lambda>k. (k, ?g k)) (ks @ [x]) = map (\<lambda>k. (k, f k)) ks @ [(x, 1)]"
      using False fx by auto
    have "foldl increment (map (\<lambda>k. (k, f k)) ks) (x # xs) =
          foldl increment (map (\<lambda>k. (k, f k)) ks @ [(x, 1)]) xs"
      using False by (simp add: increment_map [OF Cons.prems(1)])
    also have "\<dots> = foldl increment (map (\<lambda>k. (k, ?g k)) (ks @ [x])) xs"
      by (simp only: same)
    also have "\<dots> = map (\<lambda>k. (k, ?g k + count_list xs k))
               ((ks @ [x]) @ first_occurrences (filter (\<lambda>y. y \<notin> set (ks @ [x])) xs))"
      by (rule Cons.IH [OF d g])
    also have "filter (\<lambda>y. y \<notin> set (ks @ [x])) xs
                 = filter (\<lambda>y. y \<noteq> x) (filter (\<lambda>y. y \<notin> set ks) xs)"
      by (auto intro: filter_cong)
    also have "map (\<lambda>k. (k, ?g k + count_list xs k))
               ((ks @ [x]) @ first_occurrences (filter (\<lambda>y. y \<noteq> x) (filter (\<lambda>y. y \<notin> set ks) xs)))
             = map (\<lambda>k. (k, f k + count_list (x # xs) k))
               (ks @ first_occurrences (filter (\<lambda>x. x \<notin> set ks) (x # xs)))"
      using False by auto
    finally show ?thesis .
  qed
qed

lemma count_signatures_eq:
  "count_signatures sigs =
     map (\<lambda>k. (k, count_list (map signature sigs) k)) (first_occurrences (map signature sigs))"
proof -
  have "count_signatures sigs = foldl increment [] (map signature sigs)"
    by (simp add: count_signatures_def foldl_map)
  also have "\<dots> = foldl increment (map (\<lambda>k. (k, (\<lambda>_. 0) k)) []) (map signature sigs)"
    by simp
  also have "\<dots> = map (\<lambda>k. (k, 0 + count_list (map signature sigs) k))
        ([] @ first_occurrences (filter (\<lambda>x. x \<notin> set []) (map signature sigs)))"
    by (rule foldl_increment) simp_all
  finally show ?thesis by simp
qed

lemma max_by_count_first:
  "max_by_count b items =
     hd (filter (\<lambda>i. \<forall>j\<in>set (b # items). snd j \<le> snd i) (b # items))"
proof (induction items arbitrary: b)
  case Nil
  show ?case by (simp add: max_by_count_def)
next
  case (Cons it rest)
  have step: "max_by_count b (it # rest) = max_by_count (if snd b < snd it then it else b) rest"
    by (simp add: max_by_count_def)
  show ?case
  proof (cases "snd b < snd it")
    case True
    have "filter (\<lambda>i. \<forall>j\<in>set (b # it # rest). snd j \<le> snd i) (b # it # rest)
        = filter (\<lambda>i. \<forall>j\<in>set (it # rest). snd j \<le> snd i) (it # rest)"
      using True by (auto intro!: filter_cong)
    with True show ?thesis by (simp only: step Cons.IH if_True)
  next
    case False
    show ?thesis
    proof (cases "\<forall>j\<in>set (b # rest). snd j \<le> snd b")
      case True
      with False show ?thesis by (simp add: step Cons.IH)
    next
      case nb: False
      then obtain j where j: "j \<in> set rest" "snd b < snd j" by auto
      with False have "\<not> (\<forall>j\<in>set (b # it # rest). snd j \<le> snd b)"
        "\<not> (\<forall>j\<in>set (b # it # rest). snd j \<le> snd it)"
        by force+
      then have "filter (\<lambda>i. \<forall>j\<in>set (b # it # rest). snd j \<le> snd i) (b # it # rest)
          = filter (\<lambda>i. \<forall>j\<in>set (b # it # rest). snd j \<le> snd i) rest"
        by simp
      also have "\<dots> = filter (\<lambda>i. \<forall>j\<in>set (b # rest). snd j \<le> snd i) rest"
        using False by (auto intro!: filter_cong)
      also have "\<dots> = filter (\<lambda>i. \<forall>j\<in>set (b # rest). snd j \<le> snd i) (b # rest)"
        using nb by auto
      finally show ?thesis using False by (simp only: step Cons.IH if_False)
    qed
  qed
qed

lemma exists_most_frequent:
  assumes "xs \<noteq> []"
  shows "filter (\<lambda>s. \<forall>t\<in>set xs. count_list xs t \<le> count_list xs s) xs \<noteq> []"
proof -
  let ?C = "count_list xs ` set xs"
  have "finite ?C" "?C \<noteq> {}" using assms by auto
  then have "Max ?C \<in> ?C" by (rule Max_in)
  then obtain m where m: "m \<in> set xs" "count_list xs m = Max ?C" by auto
  have "\<forall>t\<in>set xs. count_list xs t \<le> count_list xs m"
    using m(2) by (simp add: \<open>finite ?C\<close>)
  with m(1) show ?thesis by (auto simp: filter_empty_conv)
qed

section \<open>Signature analysis: the claims\<close>

text \<open>
  C2, as stated (the fingerprints A, A, B are classified Majority because 2/3 reaches
  0.67), fails: the branch "Mostly consistent" is not taken, 2/3 being below 0.67.
\<close>

theorem analyze_two_of_three_counterexample:
  "map_option consistency_class (analyze_signatures (map observed [''A'', ''A'', ''B'']))
     \<noteq> Some MostlyConsistent \<and> \<not> ((2::rat) / 3 \<ge> 0.67)"
  by (simp add: analyze_signatures_def count_signatures_def observed_def max_by_count_def
        classify_def digit_char_def)

text \<open>
  C2, amended: for the fingerprints A, A, B the analysis returns the dominant
  fingerprint A with count 2 of a total of 3 and 2 distinct fingerprints, and takes the
  branch "Low consistency" (Mixed).
\<close>

theorem analyze_two_of_three:
  "analyze_signatures (map observed [''A'', ''A'', ''B'']) =
     Some \<lparr>res_signature = ''A'', res_count = 2, res_total = 3, res_consistency = ''2/3'',
            res_unique = 2, all_signatures = [''A'', ''B''],
            consistency_class = LowConsistency\<rparr>"
  by (simp add: analyze_signatures_def count_signatures_def observed_def max_by_count_def
        classify_def digit_char_def)

text \<open>
  C3, as stated (among fingerprints tied at the maximum count the lexicographically
  smallest is dominant, whatever the order of the input), fails: for B, A the dominant
  fingerprint is B.
\<close>

theorem dominant_tie_counterexample:
  "map_option res_signature (analyze_signatures (map observed [''B'', ''A''])) = Some ''B''
   \<and> (''A''::string) < ''B''"
  by (simp add: analyze_signatures_def count_signatures_def observed_def max_by_count_def
        classify_def digit_char_def less_char_def)

text \<open>
  C3, amended: for a non-empty list of entries the dominant fingerprint is the first
  fingerprint, in the order supplied, whose number of occurrences is the greatest; among
  fingerprints tied at the maximum it is the one met first.
\<close>

theorem dominant_is_first_most_frequent:
  assumes "sigs \<noteq> []"
  shows "map_option res_signature (analyze_signatures sigs) =
           Some (hd (filter (\<lambda>s. \<forall>t\<in>set (map signature sigs).
                               count_list (map signature sigs) t \<le> count_list (map signature sigs) s)
                            (map signature sigs)))"
proof -
  let ?fps = "map signature sigs"
  let ?g = "\<lambda>k. (k, count_list ?fps k)"
  let ?Q = "\<lambda>s. \<forall>t\<in>set ?fps. count_list ?fps t \<le> count_list ?fps s"
  let ?ks = "first_occurrences ?fps"
  have fps: "?fps \<noteq> []" using assms by simp
  then obtain k0 krest where ks: "?ks = k0 # krest"
    by (cases ?ks) (simp_all add: first_occurrences_Nil)
  have cs: "count_signatures sigs = ?g k0 # map ?g krest"
    unfolding count_signatures_eq ks by simp
  have "max_by_count (?g k0) (map ?g krest) =
          hd (filter (\<lambda>i. \<forall>j\<in>set (map ?g ?ks). snd j \<le> snd i) (map ?g ?ks))"
    unfolding max_by_count_first ks by simp
  also have "filter (\<lambda>i. \<forall>j\<in>set (map ?g ?ks). snd j \<le> snd i) (map ?g ?ks) = map ?g (filter ?Q ?ks)"
    by (simp add: filter_map comp_def set_first_occurrences)
  finally have m: "max_by_count (?g k0) (map ?g krest) = hd (map ?g (filter ?Q ?ks))" .
  have ne: "filter ?Q ?ks \<noteq> []"
    using exists_most_frequent [OF fps]
    by (simp add: filter_first_occurrences first_occurrences_Nil)
  have "fst (max_by_count (?g k0) (map ?g krest)) = hd (filter ?Q ?ks)"
    unfolding m using ne by (simp add: hd_map)
  also have "\<dots> = hd (filter ?Q ?fps)"
    by (simp add: filter_first_occurrences hd_first_occurrences)
  finally have "fst (max_by_count (?g k0) (map ?g krest)) = hd (filter ?Q ?fps)" .
  then show ?thesis
    by (simp add: analyze_signatures_def cs Let_def)
qed

theorem dominant_is_first_most_frequent_witness:
  "map observed [''B'', ''A'', ''B'', ''A''] \<noteq> [] \<and>
   map_option res_signature (analyze_signatures (map observed [''B'', ''A'', ''B'', ''A''])) = Some ''B''"
  using dominant_is_first_most_frequent [of "map observed [''B'', ''A'', ''B'', ''A'']"]
  by (simp add: observed_def)

end
